theory Spec2Isabelle
  imports Complex_Main "HOL-Library.Word"
begin

unbundle bit_operations_syntax

section \<open>Bytes and Python helpers\<close>

text \<open>
  A Python \<open>bytes\<close>/\<open>bytearray\<close> value is a list of 8-bit words.  Python integers are
  unbounded and are modelled by \<open>int\<close>; \<open>uint\<close> reads a byte as such an integer.
\<close>

type_synonym byte = "8 word"

text \<open>\<open>int.from_bytes(bs, byteorder='little')\<close> and \<open>int.from_bytes(bs, byteorder='big')\<close>.\<close>

fun from_bytes_little :: "byte list \<Rightarrow> int" where
  "from_bytes_little [] = 0"
| "from_bytes_little (b # bs) = uint b + 256 * from_bytes_little bs"

definition from_bytes_big :: "byte list \<Rightarrow> int" where
  "from_bytes_big bs = foldl (\<lambda>acc b. acc * 256 + uint b) 0 bs"

text \<open>The slices \<open>data[:-2]\<close> and \<open>data[-2:]\<close>; on fewer than two bytes the first is empty
  and the second is the whole list, as truncating subtraction gives.\<close>

definition slice_to_m2 :: "'a list \<Rightarrow> 'a list" where
  "slice_to_m2 xs = take (length xs - 2) xs"

definition slice_from_m2 :: "'a list \<Rightarrow> 'a list" where
  "slice_from_m2 xs = drop (length xs - 2) xs"

section \<open>Frame\<close>

text \<open>Class \<open>Frame\<close>: the fields its constructor derives from the unescaped data
  (which still carries the two checksum bytes).\<close>

record frame =
  data :: "byte list"
  address :: int
  is_from_gateway :: bool
  gateway_id :: int
  type :: "byte list option"
  payload :: "byte list option"
  checksum :: "byte list option"

definition Frame :: "byte list \<Rightarrow> frame" where
  "Frame d =
     (let a = from_bytes_big (take 2 d) in
      \<lparr> data = d,
        address = a,
        is_from_gateway = (a AND 0x8000 \<noteq> 0),
        gateway_id = a AND 0x7FFF,
        type = (if length d \<ge> 4 then Some (take 2 (drop 2 d)) else None),
        payload = (if length d \<ge> 6 then Some (drop 4 (slice_to_m2 d)) else None),
        checksum = (if length d \<ge> 2 then Some (slice_from_m2 d) else None) \<rparr>)"

section \<open>FrameReceiver\<close>

definition FRAME_START :: "byte list" where
  "FRAME_START = [0x7E, 0x07]"

definition FRAME_END :: "byte list" where
  "FRAME_END = [0x7E, 0x08]"

text \<open>The dictionary \<open>ESCAPE_MAP\<close>, from two-byte escape sequences to the byte each stands for.\<close>

definition ESCAPE_MAP :: "byte list \<rightharpoonup> byte" where
  "ESCAPE_MAP = map_of
     [([0x7E, 0x00], 0x7E),
      ([0x7E, 0x01], 0x24),
      ([0x7E, 0x02], 0x23),
      ([0x7E, 0x03], 0x25),
      ([0x7E, 0x04], 0xA4),
      ([0x7E, 0x05], 0xA3),
      ([0x7E, 0x06], 0xA5)]"

subsection \<open>calculate_crc and verify_checksum\<close>

text \<open>One pass of the inner loop: test the low bit, shift right, conditionally XOR.\<close>

definition crc_shift :: "int \<Rightarrow> int" where
  "crc_shift crc = (if crc AND 0x0001 \<noteq> 0 then drop_bit 1 crc XOR 0x8408 else drop_bit 1 crc)"

text \<open>One pass of the outer loop: \<open>crc ^= byte\<close>, then eight inner passes.\<close>

definition crc_byte :: "int \<Rightarrow> byte \<Rightarrow> int" where
  "crc_byte crc b = (crc_shift ^^ 8) (crc XOR uint b)"

definition calculate_crc :: "byte list \<Rightarrow> int" where
  "calculate_crc d = foldl crc_byte 0x8408 d"

definition verify_checksum :: "byte list \<Rightarrow> byte list \<Rightarrow> bool" where
  "verify_checksum d cs = (calculate_crc d = from_bytes_little cs)"

subsection \<open>unescape_frame\<close>

text \<open>The index loop of \<open>unescape_frame\<close>, as recursion on the bytes from \<open>i\<close> on: with at least
  two bytes left and the first \<open>7E\<close>, a known escape sequence is replaced and both bytes are
  consumed; in every other case the byte at \<open>i\<close> is copied and \<open>i\<close> advances by one.\<close>

fun unescape_frame :: "byte list \<Rightarrow> byte list" where
  "unescape_frame [] = []"
| "unescape_frame [b] = [b]"
| "unescape_frame (b # c # rest) =
     (if b = 0x7E then
        (case ESCAPE_MAP [b, c] of
           Some u \<Rightarrow> u # unescape_frame rest
         | None \<Rightarrow> b # unescape_frame (c # rest))
      else b # unescape_frame (c # rest))"

subsection \<open>extend_from_slice\<close>

text \<open>\<open>for i in range(k, len(buffer) - 1): if buffer[i:i+2] == marker: ... break\<close>:
  the first index from \<open>k\<close> on at which the two-byte marker stands, if any.\<close>

function find_marker :: "byte list \<Rightarrow> byte list \<Rightarrow> nat \<Rightarrow> nat option" where
  "find_marker marker buf i =
     (if i + 1 < length buf then
        (if take 2 (drop i buf) = marker then Some i else find_marker marker buf (i + 1))
      else None)"
  by pat_completeness auto
termination
  by (relation "measure (\<lambda>(marker, buf, i). length buf - i)") auto

declare find_marker.simps [simp del]

record frame_receiver =
  buffer :: "byte list"
  in_frame :: bool
  escape_next :: bool
  current_frame :: "byte list"

definition FrameReceiver :: frame_receiver where
  "FrameReceiver = \<lparr> buffer = [], in_frame = False, escape_next = False, current_frame = [] \<rparr>"

text \<open>What one complete region between the sentinels hands to the sink: \<open>[Frame ...]\<close> when
  \<open>sink.frame\<close> is called, \<open>[]\<close> when the region is dropped.\<close>

definition deliver :: "byte list \<Rightarrow> frame list" where
  "deliver frame_data =
     (let unescaped_data = unescape_frame frame_data in
      if length unescaped_data \<ge> 4 then
        (let frame_body = slice_to_m2 unescaped_data;
             cs = slice_from_m2 unescaped_data in
         if verify_checksum frame_body cs then [Frame unescaped_data] else [])
      else [])"

text \<open>The \<open>while True\<close> loop of \<open>extend_from_slice\<close> on the buffer: the frames handed to the
  sink, in order, and the buffer left when the loop returns.\<close>

function process_buffer :: "byte list \<Rightarrow> frame list \<times> byte list" where
  "process_buffer buf =
     (case find_marker FRAME_START buf 0 of
        None \<Rightarrow> ([], buf)
      | Some start_idx \<Rightarrow>
          (case find_marker FRAME_END buf (start_idx + 2) of
             None \<Rightarrow> ([], buf)
           | Some end_idx \<Rightarrow>
               (let frame_data = take (end_idx - (start_idx + 2)) (drop (start_idx + 2) buf);
                    out = deliver frame_data;
                    (frames, rest) = process_buffer (drop (end_idx + 2) buf)
                in (out @ frames, rest))))"
  by pat_completeness auto
termination
proof (relation "measure length")
  show "wf (measure length)" by simp
next
  fix buf :: "byte list" and start_idx end_idx
  assume "find_marker FRAME_END buf (start_idx + 2) = Some end_idx"
  then have "end_idx + 1 < length buf"
    by (induction FRAME_END buf "start_idx + 2" arbitrary: start_idx rule: find_marker.induct)
       (subst (asm) (2) find_marker.simps, auto split: if_splits)
  then show "(drop (end_idx + 2) buf, buf) \<in> measure length" by simp
qed

declare process_buffer.simps [simp del]

definition extend_from_slice :: "frame_receiver \<Rightarrow> byte list \<Rightarrow> frame list \<times> frame_receiver" where
  "extend_from_slice rx d =
     (let (frames, rest) = process_buffer (buffer rx @ d) in (frames, rx\<lparr>buffer := rest\<rparr>))"

text \<open>Successive calls of \<open>extend_from_slice\<close>, one per chunk read, as the read loop of \<open>run\<close>
  makes them: all frames handed to the sink, in order, and the receiver afterwards.\<close>

fun feed_chunks :: "frame_receiver \<Rightarrow> byte list list \<Rightarrow> frame list \<times> frame_receiver" where
  "feed_chunks rx [] = ([], rx)"
| "feed_chunks rx (c # cs) =
     (let (frames, rx') = extend_from_slice rx c;
          (frames', rx'') = feed_chunks rx' cs
      in (frames @ frames', rx''))"

subsection \<open>The checksum as the specification words it\<close>

text \<open>A 16-bit register, initial value and polynomial both \<open>0x8408\<close>: each byte is XORed into
  the low byte of the register, then eight times the register is shifted right by one and
  XORed with the polynomial when the bit shifted out was 1.\<close>

definition spec_crc_shift :: "16 word \<Rightarrow> 16 word" where
  "spec_crc_shift r = (if bit r 0 then drop_bit 1 r XOR 0x8408 else drop_bit 1 r)"

definition spec_crc :: "byte list \<Rightarrow> 16 word" where
  "spec_crc body = foldl (\<lambda>r b. (spec_crc_shift ^^ 8) (r XOR ucast b)) 0x8408 body"

text \<open>The stored form of the checksum of a body: its two bytes, low byte first.\<close>

definition crc_le :: "byte list \<Rightarrow> byte list" where
  "crc_le body =
     (let crc = calculate_crc body in [word_of_int (crc AND 0xFF), word_of_int (drop_bit 8 crc)])"

section \<open>PowerReport and MQTTBridge\<close>

text \<open>
  Python floats (voltages, currents, temperatures, the clock, the window) are modelled by
  real numbers: the scaling factors are the decimal constants of the source, and rounding
  of the binary representation is not modelled.  A \<open>NodeID\<close> object is its \<open>value\<close>.
\<close>

record power_report =
  node_id :: int
  voltage_in :: real
  voltage_out :: real
  current :: real
  duty_cycle :: real
  temperature :: real
  rssi :: "int option"
  slot :: "int option"

text \<open>The dictionary \<open>{'vin': ..., 'current': ..., 'temp': ...}\<close> kept per node.\<close>

record last_values =
  vin :: real
  cur :: real
  temp :: real

text \<open>\<open>address_str\<close>: \<open>stringhex(address, ':')\<close> of a known long address, or
  \<open>f"unknown-{node_id.value}"\<close>.\<close>

datatype address_str = Hex "byte list" | Unknown int

text \<open>One call of \<open>mqtt_client.publish\<close>: the address the topic is built from, and the
  report, gateway id and timestamp that make up the payload.\<close>

record publication =
  topic_address :: address_str
  report_of :: power_report
  gateway_of :: int
  timestamp :: real

text \<open>The fields of \<open>MQTTBridge\<close> the publish step reads and writes.  \<open>mqtt_client\<close> is
  \<open>False\<close> while the attribute is \<open>None\<close>; \<open>published\<close> lists the calls made to the client.\<close>

record bridge =
  mqtt_client :: bool
  node_table :: "int \<rightharpoonup> byte list"
  last_reports :: "string \<rightharpoonup> real \<times> int option \<times> last_values"
  dedup_window :: real
  published :: "publication list"

definition MAX_BUFFER_SIZE :: nat where
  "MAX_BUFFER_SIZE = 1024 * 1024"

definition MQTTBridge :: "real \<Rightarrow> bridge" where
  "MQTTBridge dedup =
     \<lparr> mqtt_client = False, node_table = Map.empty, last_reports = Map.empty,
       dedup_window = dedup, published = [] \<rparr>"

text \<open>Decimal rendering of an integer, as an f-string does, and the key
  \<open>f"{gateway_id}-{node_id.value}"\<close>.\<close>

function digits_str :: "nat \<Rightarrow> string" where
  "digits_str n =
     (if n < 10 then [char_of (48 + n)]
      else digits_str (n div 10) @ [char_of (48 + n mod 10)])"
  by pat_completeness auto
termination
  by (relation "measure id") auto

declare digits_str.simps [simp del]

definition str_int :: "int \<Rightarrow> string" where
  "str_int i = (if i < 0 then CHR ''-'' # digits_str (nat (- i)) else digits_str (nat i))"

definition node_key :: "int \<Rightarrow> int \<Rightarrow> string" where
  "node_key gw node = str_int gw @ ''-'' @ str_int node"

text \<open>The message built and sent in the \<open>if should_publish\<close> branch.\<close>

definition publication_for :: "real \<Rightarrow> int \<Rightarrow> int \<Rightarrow> power_report \<Rightarrow> bridge \<Rightarrow> publication" where
  "publication_for current_time gw node report b =
     \<lparr> topic_address = (case node_table b node of Some a \<Rightarrow> Hex a | None \<Rightarrow> Unknown node),
       report_of = report,
       gateway_of = gw,
       timestamp = current_time \<rparr>"

text \<open>\<open>publish_power_report\<close>; the first argument is the value \<open>time.time()\<close> returns.\<close>

definition publish_power_report :: "real \<Rightarrow> int \<Rightarrow> int \<Rightarrow> power_report \<Rightarrow> bridge \<Rightarrow> bridge" where
  "publish_power_report current_time gw node report b =
     (if \<not> mqtt_client b then b
      else if dedup_window b \<le> 0 then b
      else
        (let should_publish =
               (case last_reports b (node_key gw node) of
                  None \<Rightarrow> True
                | Some (last_time, last_slot, lv) \<Rightarrow>
                    \<not> ((current_time - last_time < dedup_window b \<and> slot report = last_slot) \<and>
                       (\<bar>voltage_in report - vin lv\<bar> < 0.2 \<and>
                        \<bar>current report - cur lv\<bar> < 0.05 \<and>
                        \<bar>temperature report - temp lv\<bar> < 0.5)));
             b' = b\<lparr>last_reports := (last_reports b)(node_key gw node \<mapsto>
                     (current_time, slot report,
                      \<lparr>vin = voltage_in report, cur = current report, temp = temperature report\<rparr>))\<rparr>
         in if should_publish
            then b'\<lparr>published := published b' @ [publication_for current_time gw node report b']\<rparr>
            else b'))"

section \<open>MQTTBridgeSink\<close>

subsection \<open>The power report handler\<close>

text \<open>The \<open>PowerReport\<close> the handler builds from at least twelve bytes of packet data.\<close>

definition decode_power_report :: "int \<Rightarrow> byte list \<Rightarrow> power_report" where
  "decode_power_report node d =
     (let vin_raw = push_bit 4 (uint (d ! 0)) OR drop_bit 4 (uint (d ! 1) AND 0xF0);
          vout_raw = push_bit 8 (uint (d ! 1) AND 0x0F) OR uint (d ! 2);
          current_raw = push_bit 4 (uint (d ! 4)) OR drop_bit 4 (uint (d ! 5) AND 0xF0);
          temp_raw = push_bit 8 (uint (d ! 5) AND 0x0F) OR uint (d ! 6)
      in \<lparr> node_id = node,
           voltage_in = real_of_int vin_raw * 0.05,
           voltage_out = real_of_int vout_raw * 0.10,
           current = real_of_int current_raw * 0.005,
           duty_cycle = real_of_int (uint (d ! 3)) / 255.0 * 100.0,
           temperature = real_of_int temp_raw * 0.1,
           rssi = (if length d \<ge> 13 then Some (uint (d ! 12)) else None),
           slot = (if length d \<ge> 12 then Some (from_bytes_big (take 2 (drop 10 d))) else None) \<rparr>)"


subsection \<open>The walk over the embedded packets\<close>

record packet =
  packet_type :: byte
  packet_node :: int
  packet_data :: "byte list"

text \<open>How one pass through the body of the \<open>while\<close> loop ends: by \<open>break\<close>, by the
  \<open>IndexError\<close> of a read past the end of the payload, or with a packet handed to its
  handler and a new offset.\<close>

datatype packet_step = Break | IndexError | Next packet nat

definition parse_packet :: "byte list \<Rightarrow> nat \<Rightarrow> packet_step" where
  "parse_packet p offset =
     (if offset \<ge> length p then IndexError
      else
        (let ptype = p ! offset;
             offset1 = offset + 1
         in if offset1 + 2 > length p then Break
            else
              (let node_id_value = from_bytes_big (take 2 (drop offset1 p));
                   offset2 = offset1 + 2;
                   offset3 = offset2 + 3
               in if offset3 \<ge> length p then IndexError
                  else
                    (let data_length = unat (p ! offset3);
                         offset4 = offset3 + 1
                     in if offset4 + data_length > length p then Break
                        else Next \<lparr> packet_type = ptype, packet_node = node_id_value,
                                    packet_data = take data_length (drop offset4 p) \<rparr>
                                  (offset4 + data_length)))))"

text \<open>The loop \<open>while offset + 6 <= len(payload)\<close>: one entry per pass through the body, in
  order.  The handlers called for a packet neither change the offset nor end the loop
  (their exceptions are caught inside the body).\<close>

function walk_packets :: "byte list \<Rightarrow> nat \<Rightarrow> packet_step list" where
  "walk_packets p offset =
     (if offset + 6 \<le> length p then
        (case parse_packet p offset of
           Next pkt offset' \<Rightarrow> Next pkt offset' # walk_packets p offset'
         | Break \<Rightarrow> [Break]
         | IndexError \<Rightarrow> [IndexError])
      else [])"
  by pat_completeness auto
termination
proof (relation "measure (\<lambda>(p, offset). length p - offset)")
  show "wf (measure (\<lambda>(p, offset). length p - offset))" by simp
next
  fix p :: "byte list" and offset pkt offset'
  assume "offset + 6 \<le> length p" and "parse_packet p offset = Next pkt offset'"
  then have "offset < offset'"
    by (auto simp: parse_packet_def Let_def split: if_splits)
  with \<open>offset + 6 \<le> length p\<close>
  show "((p, offset'), (p, offset)) \<in> measure (\<lambda>(p, offset). length p - offset)"
    by simp
qed

declare walk_packets.simps [simp del]

text \<open>The offset at which \<open>_handle_receive_response\<close> enters the loop: past the status
  fields selected by the status type and the three bytes of slot counter; \<open>None\<close> for a
  status type that makes the handler return.\<close>

definition packets_offset :: "byte list \<Rightarrow> nat option" where
  "packets_offset p =
     (let status_type = take 2 p in
      if status_type = [0x00, 0xE0] then Some (2 + 7 + 3)
      else if status_type = [0x00, 0xFE] then Some (2 + 1 + 3)
      else if status_type = [0x00, 0xEE] then Some (2 + 2 + 3)
      else if status_type = [0x00, 0xFF] then Some (2 + 3)
      else None)"

text \<open>The passes \<open>_handle_receive_response\<close> makes through its loop on \<open>frame.payload\<close>;
  none where it returns before the loop.\<close>

definition handle_receive_response :: "byte list option \<Rightarrow> packet_step list" where
  "handle_receive_response pl =
     (case pl of
        None \<Rightarrow> []
      | Some p \<Rightarrow>
          if p = [] \<or> length p < 3 then []
          else
            (case packets_offset p of
               None \<Rightarrow> []
             | Some offset \<Rightarrow> walk_packets p offset))"

section \<open>Sample inputs\<close>

text \<open>A bridge whose \<open>setup_mqtt\<close> has succeeded: the client attribute is set.\<close>

definition with_client :: "bridge \<Rightarrow> bridge" where
  "with_client b = b\<lparr>mqtt_client := True\<rparr>"

text \<open>Thirteen bytes of power report data: 100.00 V in, duty 100, 8.000 A, slot 5, RSSI 123.\<close>

definition sample_data :: "byte list" where
  "sample_data = [0x7D, 0x00, 0x00, 0xFF, 0x64, 0x00, 0x00, 0x00, 0x00, 0x00, 0x00, 0x05, 0x7B]"

definition sample_report :: power_report where
  "sample_report = decode_power_report 42 sample_data"

text \<open>A connected bridge with a window of five seconds that recorded, at time 0, the
  sample report (slot 5) for node 42 on gateway 1.\<close>

definition sample_recorded :: bridge where
  "sample_recorded =
     (with_client (MQTTBridge 5))\<lparr>last_reports :=
        [node_key 1 42 \<mapsto> (0, Some 5, \<lparr>vin = 100, cur = 8, temp = 0\<rparr>)]\<rparr>"


text \<open>A receive response payload: status type \<open>00 FF\<close>, three bytes of slot counter, and one
  embedded packet of type \<open>31\<close> from node 42 that carries the thirteen bytes above.\<close>

definition sample_payload :: "byte list" where
  "sample_payload = [0x00, 0xFF, 0x00, 0x00, 0x00, 0x31, 0x00, 0x2A, 0x00, 0x00, 0x00, 0x0D] @ sample_data"

section \<open>Properties of the frame decoder\<close>

subsection \<open>Searching for a marker\<close>

lemma find_marker_Some:
  "find_marker m buf i = Some j \<Longrightarrow> i \<le> j \<and> j + 1 < length buf \<and> take 2 (drop j buf) = m"
proof (induction m buf i rule: find_marker.induct)
  case (1 marker buf i)
  from "1.prems" have lt: "i + 1 < length buf"
    by (subst (asm) find_marker.simps) (simp split: if_splits)
  show ?case
  proof (cases "take 2 (drop i buf) = marker")
    case True
    with "1.prems" lt have "j = i"
      by (subst (asm) find_marker.simps) simp
    with True lt show ?thesis by simp
  next
    case False
    with "1.prems" lt have "find_marker marker buf (i + 1) = Some j"
      by (subst (asm) find_marker.simps) simp
    with "1.IH" [OF lt False] show ?thesis by simp
  qed
qed

lemma find_marker_append:
  "find_marker m buf i = Some j \<Longrightarrow> find_marker m (buf @ ext) i = Some j"
proof (induction m buf i rule: find_marker.induct)
  case (1 marker buf i)
  from "1.prems" have lt: "i + 1 < length buf"
    by (subst (asm) find_marker.simps) (simp split: if_splits)
  then have tk: "take 2 (drop i (buf @ ext)) = take 2 (drop i buf)"
    by simp
  show ?case
  proof (cases "take 2 (drop i buf) = marker")
    case True
    with "1.prems" lt have "j = i"
      by (subst (asm) find_marker.simps) simp
    with True lt tk show ?thesis
      by (subst find_marker.simps) simp
  next
    case False
    with "1.prems" lt have "find_marker marker buf (i + 1) = Some j"
      by (subst (asm) find_marker.simps) simp
    with "1.IH" [OF lt False] have "find_marker marker (buf @ ext) (i + 1) = Some j" .
    with False lt tk show ?thesis
      by (subst find_marker.simps) simp
  qed
qed

lemma find_marker_first:
  "i \<le> j \<Longrightarrow> j + 1 < length buf \<Longrightarrow> take 2 (drop j buf) = m \<Longrightarrow>
   (\<And>k. i \<le> k \<Longrightarrow> k < j \<Longrightarrow> take 2 (drop k buf) \<noteq> m) \<Longrightarrow>
   find_marker m buf i = Some j"
proof (induction m buf i rule: find_marker.induct)
  case (1 marker buf i)
  from "1.prems"(1,2) have lt: "i + 1 < length buf" by simp
  show ?case
  proof (cases "i = j")
    case True
    with "1.prems"(3) lt show ?thesis
      by (subst find_marker.simps) simp
  next
    case False
    with "1.prems"(1) have ij: "i < j" by simp
    then have ne: "take 2 (drop i buf) \<noteq> marker"
      using "1.prems"(4) [of i] by simp
    have "find_marker marker buf (i + 1) = Some j"
      using ij "1.prems"(2,3,4) by (intro "1.IH" [OF lt ne]) simp_all
    with lt ne show ?thesis
      by (subst find_marker.simps) simp
  qed
qed

lemma find_marker_None:
  "(\<And>k. i \<le> k \<Longrightarrow> k + 1 < length buf \<Longrightarrow> take 2 (drop k buf) \<noteq> m) \<Longrightarrow>
   find_marker m buf i = None"
proof (induction m buf i rule: find_marker.induct)
  case (1 marker buf i)
  show ?case
  proof (cases "i + 1 < length buf")
    case True
    then have ne: "take 2 (drop i buf) \<noteq> marker"
      using "1.prems" [of i] by simp
    have "find_marker marker buf (i + 1) = None"
      using "1.prems" by (intro "1.IH" [OF True ne]) simp_all
    with True ne show ?thesis
      by (subst find_marker.simps) simp
  next
    case False
    then show ?thesis
      by (subst find_marker.simps) simp
  qed
qed

lemma find_marker_None_D:
  "find_marker m buf i = None \<Longrightarrow> i \<le> k \<Longrightarrow> k + 1 < length buf \<Longrightarrow> take 2 (drop k buf) \<noteq> m"
proof (induction m buf i rule: find_marker.induct)
  case (1 marker buf i)
  from "1.prems"(2,3) have lt: "i + 1 < length buf" by simp
  from "1.prems"(1) lt have ne: "take 2 (drop i buf) \<noteq> marker"
    by (subst (asm) find_marker.simps) (simp split: if_splits)
  from "1.prems"(1) lt ne have rec: "find_marker marker buf (i + 1) = None"
    by (subst (asm) find_marker.simps) simp
  show ?case
  proof (cases "k = i")
    case True
    with ne show ?thesis by simp
  next
    case False
    with "1.prems"(2) have "i + 1 \<le> k" by simp
    from "1.IH" [OF lt ne rec this "1.prems"(3)] show ?thesis .
  qed
qed

lemma take2_drop_nth:
  "k + 1 < length buf \<Longrightarrow> take 2 (drop k buf) = [buf ! k, buf ! (k + 1)]"
  by (simp add: take_Suc_conv_app_nth numeral_2_eq_2 Cons_nth_drop_Suc [symmetric])

subsection \<open>The loop of extend_from_slice\<close>

lemma process_buffer_Nil: "process_buffer [] = ([], [])"
  by (subst process_buffer.simps, subst find_marker.simps) simp

lemma process_buffer_step:
  assumes "find_marker FRAME_START buf 0 = Some s"
    and "find_marker FRAME_END buf (s + 2) = Some e"
  shows "process_buffer buf =
           (deliver (take (e - (s + 2)) (drop (s + 2) buf)) @ fst (process_buffer (drop (e + 2) buf)),
            snd (process_buffer (drop (e + 2) buf)))"
  using assms by (subst process_buffer.simps) (simp add: case_prod_unfold Let_def)

lemma process_buffer_unchanged:
  "find_marker FRAME_START buf 0 = None \<Longrightarrow> process_buffer buf = ([], buf)"
  by (subst process_buffer.simps) simp

lemma process_buffer_append:
  "process_buffer (b1 @ b2) =
     (fst (process_buffer b1) @ fst (process_buffer (snd (process_buffer b1) @ b2)),
      snd (process_buffer (snd (process_buffer b1) @ b2)))"
proof (induction b1 rule: process_buffer.induct)
  case (1 buf)
  show ?case
  proof (cases "find_marker FRAME_START buf 0")
    case None
    then have "process_buffer buf = ([], buf)"
      by (subst process_buffer.simps) simp
    then show ?thesis by simp
  next
    case (Some s)
    show ?thesis
    proof (cases "find_marker FRAME_END buf (s + 2)")
      case None
      with Some have "process_buffer buf = ([], buf)"
        by (subst process_buffer.simps) simp
      then show ?thesis by simp
    next
      case e: (Some e)
      from find_marker_Some [OF e] have le: "s + 2 \<le> e" "e + 1 < length buf" by simp_all
      let ?fd = "take (e - (s + 2)) (drop (s + 2) buf)"
      let ?rest = "drop (e + 2) buf"
      have pb: "process_buffer buf =
                  (deliver ?fd @ fst (process_buffer ?rest), snd (process_buffer ?rest))"
        by (rule process_buffer_step [OF Some e])
      have fd: "take (e - (s + 2)) (drop (s + 2) (buf @ b2)) = ?fd"
        using le by simp
      have rest: "drop (e + 2) (buf @ b2) = ?rest @ b2"
        using le by simp
      have pb': "process_buffer (buf @ b2) =
                  (deliver ?fd @ fst (process_buffer (?rest @ b2)), snd (process_buffer (?rest @ b2)))"
        using process_buffer_step [OF find_marker_append [OF Some, of b2] find_marker_append [OF e, of b2]]
        unfolding fd rest .
      have IH: "process_buffer (?rest @ b2) =
          (fst (process_buffer ?rest) @ fst (process_buffer (snd (process_buffer ?rest) @ b2)),
           snd (process_buffer (snd (process_buffer ?rest) @ b2)))"
        by (rule "1.IH" [OF Some e refl refl])
      from IH have f: "fst (process_buffer (?rest @ b2)) =
          fst (process_buffer ?rest) @ fst (process_buffer (snd (process_buffer ?rest) @ b2))"
        by (metis fst_conv)
      from IH have r: "snd (process_buffer (?rest @ b2)) =
          snd (process_buffer (snd (process_buffer ?rest) @ b2))"
        by (metis snd_conv)
      show ?thesis
        unfolding pb' pb using f r by simp
    qed
  qed
qed

lemma extend_from_slice_twice:
  "extend_from_slice rx (c @ d) =
     (fst (extend_from_slice rx c) @ fst (extend_from_slice (snd (extend_from_slice rx c)) d),
      snd (extend_from_slice (snd (extend_from_slice rx c)) d))"
proof -
  have "process_buffer (buffer rx @ c @ d) =
     (fst (process_buffer (buffer rx @ c)) @
        fst (process_buffer (snd (process_buffer (buffer rx @ c)) @ d)),
      snd (process_buffer (snd (process_buffer (buffer rx @ c)) @ d)))"
    using process_buffer_append [of "buffer rx @ c" d] by simp
  then show ?thesis
    by (simp add: extend_from_slice_def case_prod_unfold Let_def)
qed

lemma feed_chunks_general:
  "chunks \<noteq> [] \<Longrightarrow> feed_chunks rx chunks = extend_from_slice rx (concat chunks)"
proof (induction chunks arbitrary: rx)
  case Nil
  then show ?case by simp
next
  case (Cons c cs)
  show ?case
  proof (cases "cs = []")
    case True
    then show ?thesis by (simp add: case_prod_unfold Let_def)
  next
    case False
    let ?rx' = "snd (extend_from_slice rx c)"
    have "feed_chunks ?rx' cs = extend_from_slice ?rx' (concat cs)"
      by (rule Cons.IH [OF False])
    then show ?thesis
      by (simp add: extend_from_slice_twice [of rx c "concat cs"] case_prod_unfold Let_def)
  qed
qed

text \<open>
  Claim C7 (fragmentation invariance).  For every byte stream and every way of cutting it
  into chunks, feeding the chunks one after the other to a fresh receiver hands the sink
  the same sequence of frames, and leaves the same buffer, as feeding the whole stream as
  a single chunk.
\<close>

theorem fragmentation_invariance:
  "feed_chunks FrameReceiver chunks = extend_from_slice FrameReceiver (concat chunks)"
proof (cases "chunks = []")
  case True
  then show ?thesis
    by (simp add: extend_from_slice_def FrameReceiver_def process_buffer_Nil)
next
  case False
  then show ?thesis by (rule feed_chunks_general)
qed

section \<open>Properties of the checksum\<close>

lemma crc_shift_uint: "crc_shift (uint r) = uint (spec_crc_shift r)"
proof -
  have b: "(uint r AND 1 \<noteq> 0) = bit r 0"
  proof -
    have "(uint r AND 1 \<noteq> 0) = bit (uint r) 0"
      by (simp add: and_one_eq bit_0 mod_2_eq_odd)
    then show ?thesis by (simp add: bit_uint_iff)
  qed
  have d: "drop_bit 1 (uint r) = uint (drop_bit 1 r)"
    by (simp add: drop_bit_eq_div uint_div_distrib)
  show ?thesis
    unfolding crc_shift_def spec_crc_shift_def b d
    by (simp add: uint_xor)
qed

lemma crc_shift_pow_uint: "(crc_shift ^^ n) (uint r) = uint ((spec_crc_shift ^^ n) r)"
  by (induction n) (simp_all add: crc_shift_uint)

lemma crc_byte_uint: "crc_byte (uint r) b = uint ((spec_crc_shift ^^ 8) (r XOR ucast b))"
proof -
  have "uint r XOR uint b = uint (r XOR (ucast b :: 16 word))"
    by (simp add: uint_xor uint_up_ucast is_up)
  then show ?thesis
    unfolding crc_byte_def by (simp only: crc_shift_pow_uint)
qed

lemma foldl_crc_uint:
  "foldl crc_byte (uint r) body = uint (foldl (\<lambda>r b. (spec_crc_shift ^^ 8) (r XOR ucast b)) r body)"
  by (induction body arbitrary: r) (simp_all add: crc_byte_uint)

lemma calculate_crc_spec: "calculate_crc body = uint (spec_crc body)"
proof -
  have "(0x8408 :: int) = uint (0x8408 :: 16 word)" by simp
  then show ?thesis
    unfolding calculate_crc_def spec_crc_def by (simp only: foldl_crc_uint)
qed

lemma calculate_crc_range: "0 \<le> calculate_crc body \<and> calculate_crc body < 65536"
  using uint_lt2p [of "spec_crc body"] by (simp add: calculate_crc_spec)

lemma from_bytes_little_two:
  "0 \<le> c \<Longrightarrow> c < 65536 \<Longrightarrow>
   from_bytes_little [word_of_int (c AND 0xFF), word_of_int (drop_bit 8 c)] = c"
proof -
  assume c: "0 \<le> c" "c < 65536"
  have lo: "c AND 0xFF = c mod 256"
  proof -
    have "c AND mask 8 = c mod 2 ^ 8"
      by (simp add: take_bit_eq_mod flip: take_bit_eq_mask)
    then show ?thesis by (simp add: mask_eq_exp_minus_1)
  qed
  have hi: "drop_bit 8 c = c div 256"
    by (simp add: drop_bit_eq_div)
  have "c div 256 < 256" using c by simp
  moreover have "0 \<le> c div 256" using c by simp
  ultimately have "uint (word_of_int (c div 256) :: byte) = c div 256"
    by (simp add: uint_word_of_int take_bit_eq_mod)
  moreover have "uint (word_of_int (c mod 256) :: byte) = c mod 256"
    by (simp add: uint_word_of_int take_bit_eq_mod)
  ultimately show ?thesis
    by (simp add: lo hi)
qed

lemma verify_checksum_crc_le: "verify_checksum body (crc_le body)"
  using calculate_crc_range [of body]
  by (simp add: verify_checksum_def crc_le_def Let_def from_bytes_little_two del: from_bytes_little.simps)

text \<open>
  Claim C9 (checksum).  The checksum of the empty body is the initial register \<open>0x8408\<close>;
  the checksum the code computes on Python integers is the value of the 16-bit register
  run as the specification words it (initial value and polynomial \<open>0x8408\<close>, each byte
  XORed into the low byte, then eight right shifts with a conditional XOR of the
  polynomial); and for every body the verification of the body against its own checksum,
  stored low byte first, succeeds.
\<close>

theorem crc_round_trip:
  "calculate_crc [] = 0x8408 \<and> calculate_crc body = uint (spec_crc body) \<and>
   verify_checksum body (crc_le body)"
proof -
  have "calculate_crc [] = 0x8408" by (simp add: calculate_crc_def)
  moreover have "verify_checksum body (crc_le body)"
    by (rule verify_checksum_crc_le)
  ultimately show ?thesis by (simp add: calculate_crc_spec)
qed

section \<open>Regions between the sentinels\<close>

lemma no_start_without_7E:
  assumes "0x7E \<notin> set buf"
  shows "find_marker FRAME_START buf 0 = None"
proof (rule find_marker_None)
  fix k assume k: "k + 1 < length buf"
  then have "buf ! k \<in> set buf" by simp
  with assms have "buf ! k \<noteq> 0x7E" by metis
  with k show "take 2 (drop k buf) \<noteq> FRAME_START"
    by (simp add: take2_drop_nth FRAME_START_def)
qed

lemma region_end_found:
  assumes "find_marker FRAME_END r 0 = None"
  shows "find_marker FRAME_END (FRAME_START @ r @ FRAME_END) 2 = Some (length r + 2)"
proof (rule find_marker_first)
  show "2 \<le> length r + 2" by simp
  show "length r + 2 + 1 < length (FRAME_START @ r @ FRAME_END)"
    by (simp add: FRAME_START_def FRAME_END_def)
  show "take 2 (drop (length r + 2) (FRAME_START @ r @ FRAME_END)) = FRAME_END"
    by (simp add: FRAME_START_def FRAME_END_def)
next
  fix k assume k: "2 \<le> k" "k < length r + 2"
  define k' where "k' = k - 2"
  with k have k': "k = k' + 2" "k' < length r" by simp_all
  have d: "drop k (FRAME_START @ r @ FRAME_END) = drop k' r @ FRAME_END"
    using k' by (simp add: FRAME_START_def)
  show "take 2 (drop k (FRAME_START @ r @ FRAME_END)) \<noteq> FRAME_END"
  proof (cases "k' + 1 < length r")
    case True
    then have "take 2 (drop k (FRAME_START @ r @ FRAME_END)) = take 2 (drop k' r)"
      unfolding d by simp
    with find_marker_None_D [OF assms le0 True] show ?thesis by simp
  next
    case False
    with k' have "drop k' r = [r ! k']"
      by (metis Cons_nth_drop_Suc Suc_eq_plus1 drop_all linorder_not_less)
    then show ?thesis
      unfolding d by (simp add: FRAME_END_def)
  qed
qed

lemma single_region:
  assumes "find_marker FRAME_END r 0 = None"
  shows "process_buffer (FRAME_START @ r @ FRAME_END) = (deliver r, [])"
proof -
  have s: "find_marker FRAME_START (FRAME_START @ r @ FRAME_END) 0 = Some 0"
    by (subst find_marker.simps) (simp add: FRAME_START_def FRAME_END_def)
  have e: "find_marker FRAME_END (FRAME_START @ r @ FRAME_END) (0 + 2) = Some (length r + 2)"
    by (simp only: add_0 region_end_found [OF assms])
  show ?thesis
    unfolding process_buffer_step [OF s e]
    by (simp add: FRAME_START_def FRAME_END_def process_buffer_Nil)
qed

lemma ESCAPE_MAP_7E_7E: "ESCAPE_MAP [0x7E, 0x7E] = None"
  by (simp add: ESCAPE_MAP_def)

lemma unescape_frame_snoc_7E: "unescape_frame (pre @ [0x7E]) = unescape_frame pre @ [0x7E]"
  by (induction pre rule: unescape_frame.induct) (auto simp: ESCAPE_MAP_7E_7E split: option.splits)


lemma no_end_without_7E:
  assumes "0x7E \<notin> set buf"
  shows "find_marker FRAME_END buf 0 = None"
proof (rule find_marker_None)
  fix k assume k: "k + 1 < length buf"
  then have "buf ! k \<in> set buf" by simp
  with assms have "buf ! k \<noteq> 0x7E" by metis
  with k show "take 2 (drop k buf) \<noteq> FRAME_END"
    by (simp add: take2_drop_nth FRAME_END_def)
qed

lemma unescape_frame_plain: "0x7E \<notin> set r \<Longrightarrow> unescape_frame r = r"
  by (induction r rule: unescape_frame.induct) auto

lemma length_crc_le: "length (crc_le body) = 2"
  by (simp add: crc_le_def Let_def)

text \<open>A frame without any \<open>7E\<close> in its body and checksum reaches the sink as soon as its
  body has two bytes.\<close>

lemma plain_frame_delivery:
  assumes "0x7E \<notin> set body" and "0x7E \<notin> set (crc_le body)"
  shows "fst (extend_from_slice FrameReceiver (FRAME_START @ (body @ crc_le body) @ FRAME_END)) =
           (if 2 \<le> length body then [Frame (body @ crc_le body)] else [])"
proof -
  let ?r = "body @ crc_le body"
  from assms have n: "0x7E \<notin> set ?r" by simp
  have u: "unescape_frame ?r = ?r"
    by (rule unescape_frame_plain [OF n])
  have d: "deliver ?r = (if 2 \<le> length body then [Frame ?r] else [])"
    by (simp add: deliver_def u Let_def slice_to_m2_def slice_from_m2_def length_crc_le
          verify_checksum_crc_le)
  have "process_buffer (FRAME_START @ ?r @ FRAME_END) = (deliver ?r, [])"
    by (rule single_region [OF no_end_without_7E [OF n]])
  then show ?thesis
    unfolding extend_from_slice_def by (simp add: FrameReceiver_def d del: append_assoc)
qed

text \<open>
  Claim C2 (short frames).  A sentinel-delimited frame with a valid checksum whose body,
  the checksum bytes stripped, is shorter than four bytes should never reach the sink.
  The receiver compares the length of the unescaped data, which still holds the two
  checksum bytes, with four: the body \<open>80 00\<close> of two bytes, followed by its checksum
  \<open>20 80\<close>, is handed to the sink.
\<close>

theorem short_frame_delivered:
  "verify_checksum [0x80, 0x00] [0x20, 0x80] \<and> length [0x80, 0x00 :: byte] < 4 \<and>
   fst (extend_from_slice FrameReceiver [0x7E, 0x07, 0x80, 0x00, 0x20, 0x80, 0x7E, 0x08]) =
     [Frame [0x80, 0x00, 0x20, 0x80]]"
  by code_simp




lemma feed_without_7E:
  assumes "0x7E \<notin> set (concat chunks)" and "chunks \<noteq> []"
  shows "buffer (snd (feed_chunks FrameReceiver chunks)) = concat chunks"
proof -
  have "process_buffer (concat chunks) = ([], concat chunks)"
    by (rule process_buffer_unchanged [OF no_start_without_7E [OF assms(1)]])
  then show ?thesis
    by (simp add: feed_chunks_general [OF assms(2)] extend_from_slice_def FrameReceiver_def)
qed

text \<open>
  Claim C4 (buffer bound).  The buffer should never hold more than \<open>MAX_BUFFER_SIZE\<close>
  bytes.  The receiver never reads that constant: after 1025 reads of 1024 zero bytes
  each, none of them part of a sentinel, the buffer holds all 1049600 bytes.
\<close>

theorem buffer_grows_past_bound:
  "length (buffer (snd (feed_chunks FrameReceiver (replicate 1025 (replicate 1024 0))))) = 1049600 \<and>
   MAX_BUFFER_SIZE < length (buffer (snd (feed_chunks FrameReceiver (replicate 1025 (replicate 1024 0)))))"
proof -
  have "(0x7E :: byte) \<notin> set (concat (replicate 1025 (replicate 1024 0)))"
    by auto
  moreover have "replicate 1025 (replicate 1024 (0::byte)) \<noteq> []"
    by simp
  ultimately have "buffer (snd (feed_chunks FrameReceiver (replicate 1025 (replicate 1024 0)))) =
      concat (replicate 1025 (replicate 1024 0))"
    by (rule feed_without_7E)
  then show ?thesis
    by (simp add: length_concat sum_list_replicate MAX_BUFFER_SIZE_def)
qed

section \<open>Properties of the deduplication gate\<close>


lemma publication_for_last_reports [simp]:
  "publication_for t gw node r (b\<lparr>last_reports := m\<rparr>) = publication_for t gw node r b"
  by (simp add: publication_for_def)

lemma publish_power_report_disabled:
  "dedup_window b \<le> 0 \<Longrightarrow> publish_power_report t gw node r b = b"
  by (simp add: publish_power_report_def)

text \<open>
  Claim C1 (gate disabled).  With a window of zero or less every report reaching the
  publish step should be published.  The publish step returns as soon as it finds the
  window to be zero or less: on a connected bridge with window 0 the first report for a
  key is not published.
\<close>

theorem dedup_disabled_drops_report:
  "dedup_window (with_client (MQTTBridge 0)) \<le> 0 \<and> mqtt_client (with_client (MQTTBridge 0)) \<and>
   published (publish_power_report 100 1 42 sample_report (with_client (MQTTBridge 0))) = []"
  by (simp add: publish_power_report_def MQTTBridge_def with_client_def)

text \<open>
  Claim C5 (slot change).  On a connected bridge with a positive window, a report whose
  slot differs from the slot recorded for its key is published, whatever its values, the
  recorded values and the time elapsed since the recorded time.
\<close>

theorem slot_change_published:
  assumes "mqtt_client b" and "0 < dedup_window b"
    and "last_reports b (node_key gw node) = Some (last_time, last_slot, lv)"
    and "slot r \<noteq> last_slot"
  shows "published (publish_power_report t gw node r b) =
           published b @ [publication_for t gw node r b]"
  using assms by (simp add: publish_power_report_def Let_def)

theorem slot_change_published_witness:
  "mqtt_client sample_recorded \<and> 0 < dedup_window sample_recorded \<and>
   last_reports sample_recorded (node_key 1 42) = Some (0, Some 5, \<lparr>vin = 100, cur = 8, temp = 0\<rparr>) \<and>
   slot (sample_report\<lparr>slot := Some 6\<rparr>) \<noteq> Some 5 \<and>
   published (publish_power_report 1 1 42 (sample_report\<lparr>slot := Some 6\<rparr>) sample_recorded) =
     [publication_for 1 1 42 (sample_report\<lparr>slot := Some 6\<rparr>) sample_recorded]"
proof -
  have h1: "mqtt_client sample_recorded"
    by (simp add: sample_recorded_def with_client_def)
  have h2: "0 < dedup_window sample_recorded"
    by (simp add: sample_recorded_def with_client_def MQTTBridge_def)
  have h3: "last_reports sample_recorded (node_key 1 42) =
      Some (0, Some 5, \<lparr>vin = 100, cur = 8, temp = 0\<rparr>)"
    by (simp add: sample_recorded_def)
  have h4: "slot (sample_report\<lparr>slot := Some 6\<rparr>) \<noteq> Some 5"
    by simp
  have p: "published sample_recorded = []"
    by (simp add: sample_recorded_def with_client_def MQTTBridge_def)
  from slot_change_published [OF h1 h2 h3 h4, of 1] h1 h2 h3 h4 p
  show ?thesis by simp
qed








section \<open>Properties of the power report handler\<close>



section \<open>Properties of the walk over the embedded packets\<close>

lemma parse_packet_Next:
  "parse_packet p offset = Next pkt offset' \<Longrightarrow>
     offset' = offset + 7 + length (packet_data pkt) \<and> offset' \<le> length p"
  by (auto simp: parse_packet_def Let_def split: if_splits)

lemma walk_packets_bound:
  "length (walk_packets p offset) \<le> (length p + 1 - offset) div 7"
proof (induction p offset rule: walk_packets.induct)
  case (1 p offset)
  show ?case
  proof (cases "offset + 6 \<le> length p")
    case False
    then show ?thesis by (subst walk_packets.simps) simp
  next
    case True
    then have one: "1 \<le> (length p + 1 - offset) div 7" by simp
    show ?thesis
    proof (cases "parse_packet p offset")
      case Break
      with True one show ?thesis by (subst walk_packets.simps) simp
    next
      case IndexError
      with True one show ?thesis by (subst walk_packets.simps) simp
    next
      case (Next pkt offset')
      from parse_packet_Next [OF Next] have o: "offset + 7 \<le> offset'" "offset' \<le> length p"
        by simp_all
      have "length (walk_packets p offset') \<le> (length p + 1 - offset') div 7"
        by (rule "1.IH" [OF True Next])
      also have "\<dots> \<le> (length p + 1 - offset - 7) div 7"
        using o by (intro div_le_mono) simp
      finally have "Suc (length (walk_packets p offset')) \<le> (length p + 1 - offset) div 7"
        using True by simp
      with True Next show ?thesis by (subst walk_packets.simps) simp
    qed
  qed
qed

text \<open>
  Claim C10 (the walk terminates).  A pass through the loop body that does not leave the
  loop moves the offset forward by at least seven bytes and not past the end of the
  payload; the number of passes of a walk from any offset is at most the bytes from one
  before that offset on, divided by seven; and the number of passes the receive response
  handler makes on a payload of any length and content is at most its length divided by
  seven.
\<close>

theorem receive_response_walk_bounded:
  "(parse_packet p offset = Next pkt offset' \<longrightarrow> offset + 7 \<le> offset' \<and> offset' \<le> length p) \<and>
   length (walk_packets p offset) \<le> (length p + 1 - offset) div 7 \<and>
   length (handle_receive_response pl) \<le> (case pl of None \<Rightarrow> 0 | Some q \<Rightarrow> length q div 7)"
proof -
  have "length (handle_receive_response pl) \<le> (case pl of None \<Rightarrow> 0 | Some q \<Rightarrow> length q div 7)"
  proof (cases pl)
    case None
    then show ?thesis by (simp add: handle_receive_response_def)
  next
    case (Some q)
    have "length (walk_packets q offset) \<le> length q div 7" if "1 \<le> offset" for offset
    proof -
      have "(length q + 1 - offset) div 7 \<le> length q div 7"
        using that by (intro div_le_mono) simp
      with walk_packets_bound [of q offset] show ?thesis by simp
    qed
    then show ?thesis
      using Some
      by (auto simp: handle_receive_response_def packets_offset_def Let_def split: option.splits if_splits)
  qed
  moreover have "parse_packet p offset = Next pkt offset' \<longrightarrow>
      offset + 7 \<le> offset' \<and> offset' \<le> length p"
    using parse_packet_Next [of p offset pkt offset'] by auto
  ultimately show ?thesis
    using walk_packets_bound [of p offset] by blast
qed

theorem receive_response_walk_bounded_witness:
  "parse_packet sample_payload 5 =
     Next \<lparr>packet_type = 0x31, packet_node = 42, packet_data = sample_data\<rparr> 25 \<and>
   (5::nat) + 7 \<le> 25 \<and> 25 \<le> length sample_payload \<and>
   length (handle_receive_response (Some sample_payload)) \<le> 25 div 7"
proof -
  have p: "parse_packet sample_payload 5 =
     Next \<lparr>packet_type = 0x31, packet_node = 42, packet_data = sample_data\<rparr> 25"
    by (simp add: parse_packet_def sample_payload_def sample_data_def Let_def from_bytes_big_def)
  have l: "length sample_payload = 25"
    by (simp add: sample_payload_def sample_data_def)
  from receive_response_walk_bounded [of sample_payload 5
      "\<lparr>packet_type = 0x31, packet_node = 42, packet_data = sample_data\<rparr>" 25 "Some sample_payload"] p l
  show ?thesis by simp
qed

end
